theory Spec2Isabelle
  imports Main "HOL-Library.Sublist"
begin

section \<open>The wizard asset script\<close>

text \<open>
  The script \<^verbatim>\<open>process_wizard.py\<close> reads one SVG file as text, replaces a fixed
  attribute literal by two different literals, and writes the two results to two other
  files. The embedding below follows \<^verbatim>\<open>process_wizard()\<close> line by line. What Python
  supplies from outside the script (\<^verbatim>\<open>str.replace\<close>, \<^verbatim>\<open>open\<close>, \<^verbatim>\<open>print\<close>) is
  modelled first.
\<close>

subsection \<open>Python's \<^verbatim>\<open>str.replace\<close>\<close>

text \<open>
  \<^verbatim>\<open>s.replace(old, new)\<close> scans \<^verbatim>\<open>s\<close> from the left. Where \<^verbatim>\<open>old\<close> starts at the current
  position it emits \<^verbatim>\<open>new\<close> and continues behind the match, otherwise it copies one
  character. An empty \<^verbatim>\<open>old\<close> matches before every character and at the end. Text is a
  list of characters; the functions are polymorphic in the character type, so they cover
  Python's code points as well as bytes.
\<close>

fun scan_replace :: "'a list \<Rightarrow> 'a list \<Rightarrow> 'a list \<Rightarrow> 'a list" where
  "scan_replace old new [] = []"
| "scan_replace old new (c # cs) =
     (if old \<noteq> [] \<and> prefix old (c # cs)
      then new @ scan_replace old new (drop (length old) (c # cs))
      else c # scan_replace old new cs)"

definition str_replace :: "'a list \<Rightarrow> 'a list \<Rightarrow> 'a list \<Rightarrow> 'a list" where
  "str_replace s old new =
     (if old = [] then new @ concat (map (\<lambda>c. c # new) s) else scan_replace old new s)"

subsection \<open>Files, console and exceptions\<close>

text \<open>
  A file holds its text as text-mode input and output see it, and two permission bits.
  The file system maps a path to the file stored there. Every call of \<^verbatim>\<open>open\<close>,
  \<^verbatim>\<open>f.write\<close> and \<^verbatim>\<open>print\<close> is recorded in a trace, in the order of the calls, so that
  the order of the effects and the absence of an effect can be stated.
\<close>

type_synonym path = string

record text_file =
  file_text :: string
  readable :: bool
  writable :: bool

type_synonym filesystem = "path \<rightharpoonup> text_file"

datatype mode = Reading | Writing

datatype event = Open_call path mode | Write_call path string | Print_call string

record world =
  files :: filesystem
  trace :: "event list"

datatype exn = FileNotFoundError | PermissionError

definition log_event :: "event \<Rightarrow> world \<Rightarrow> world" where
  "log_event e w = w\<lparr>trace := trace w @ [e]\<rparr>"

text \<open>\<^verbatim>\<open>print(line)\<close>\<close>

definition print_line :: "string \<Rightarrow> world \<Rightarrow> world" where
  "print_line s w = log_event (Print_call s) w"

text \<open>
  \<^verbatim>\<open>with open(p, 'r') as f: content = f.read()\<close>: a missing file raises
  \<^verbatim>\<open>FileNotFoundError\<close>, a file that may not be read raises \<^verbatim>\<open>PermissionError\<close>.
\<close>

definition read_text :: "path \<Rightarrow> world \<Rightarrow> (exn + string) \<times> world" where
  "read_text p w =
     (let w1 = log_event (Open_call p Reading) w in
      case files w p of
        None \<Rightarrow> (Inl FileNotFoundError, w1)
      | Some f \<Rightarrow> if readable f then (Inr (file_text f), w1) else (Inl PermissionError, w1))"

text \<open>
  \<^verbatim>\<open>with open(p, 'w') as f: f.write(s)\<close>: a missing file is created, an existing one is
  truncated and keeps its permissions, and a file that may not be written raises
  \<^verbatim>\<open>PermissionError\<close> at \<^verbatim>\<open>open\<close>, before anything is changed.
\<close>

definition may_write :: "world \<Rightarrow> path \<Rightarrow> bool" where
  "may_write w p = (case files w p of None \<Rightarrow> True | Some f \<Rightarrow> writable f)"

definition stored :: "text_file option \<Rightarrow> string \<Rightarrow> text_file" where
  "stored before s =
     (case before of
        None \<Rightarrow> \<lparr>file_text = s, readable = True, writable = True\<rparr>
      | Some f \<Rightarrow> f\<lparr>file_text := s\<rparr>)"

definition write_text :: "path \<Rightarrow> string \<Rightarrow> world \<Rightarrow> (exn + unit) \<times> world" where
  "write_text p s w =
     (let w1 = log_event (Open_call p Writing) w in
      if may_write w p
      then (Inr (), log_event (Write_call p s)
              (w1\<lparr>files := (files w1)(p \<mapsto> stored (files w1 p) s)\<rparr>))
      else (Inl PermissionError, w1))"

subsection \<open>The constants of the script\<close>

definition backslash :: char where
  "backslash = CHR 0x5C"

fun win_path :: "string list \<Rightarrow> string" where
  "win_path [] = []"
| "win_path [c] = c"
| "win_path (c # cs) = c @ backslash # win_path cs"

definition chess_dir :: "string list" where
  "chess_dir = [''c:'', ''Users'', ''liaml'', ''Documents'', ''GitHub'', ''Castles'',
                ''src'', ''Assets'', ''Images'', ''Chess'']"

definition source_path :: path where
  "source_path = win_path (chess_dir @ [''wMage.svg''])"

definition w_dest_path :: path where
  "w_dest_path = win_path (chess_dir @ [''wWizard.svg''])"

definition b_dest_path :: path where
  "b_dest_path = win_path (chess_dir @ [''bWizard.svg''])"

definition target_literal :: string where
  \<open>target_literal = ''fill="#000000" stroke="none"''\<close>

definition white_literal :: string where
  \<open>white_literal = ''fill="#ffffff" stroke="#000000" stroke-width="10"''\<close>

definition black_literal :: string where
  \<open>black_literal = ''fill="#000000" stroke="#ffffff" stroke-width="10"''\<close>

subsection \<open>\<^verbatim>\<open>process_wizard\<close>\<close>

text \<open>
  The result is \<open>Inr ()\<close> when the function returns and \<open>Inl e\<close> when the exception
  \<open>e\<close> leaves it. Only \<^verbatim>\<open>FileNotFoundError\<close> from reading the source is caught; the two
  writes are outside the \<^verbatim>\<open>try\<close>.
\<close>

definition process_wizard :: "world \<Rightarrow> (exn + unit) \<times> world" where
  "process_wizard w0 =
     (case read_text source_path w0 of
        (Inl e, w1) \<Rightarrow>
          if e = FileNotFoundError
          then (Inr (), print_line (''Error: '' @ source_path @ '' not found.'') w1)
          else (Inl e, w1)
      | (Inr content, w1) \<Rightarrow>
          (let w_content = str_replace content target_literal white_literal in
           case write_text w_dest_path w_content w1 of
             (Inl e, w2) \<Rightarrow> (Inl e, w2)
           | (Inr _, w2) \<Rightarrow>
               (let w3 = print_line (''Created '' @ w_dest_path) w2;
                    b_content = str_replace content target_literal black_literal in
                case write_text b_dest_path b_content w3 of
                  (Inl e, w4) \<Rightarrow> (Inl e, w4)
                | (Inr _, w4) \<Rightarrow> (Inr (), print_line (''Created '' @ b_dest_path) w4))))"

subsection \<open>Observing a run\<close>

text \<open>
  The outcome of a run, the file system it leaves, the text stored at a path afterwards,
  the calls the run made, in order, and the lines among them that went to the console.
\<close>

definition outcome :: "world \<Rightarrow> exn + unit" where
  "outcome w = fst (process_wizard w)"

definition files_after :: "world \<Rightarrow> filesystem" where
  "files_after w = files (snd (process_wizard w))"

definition written_text :: "world \<Rightarrow> path \<Rightarrow> string option" where
  "written_text w p = map_option file_text (files_after w p)"

definition events :: "world \<Rightarrow> event list" where
  "events w = drop (length (trace w)) (trace (snd (process_wizard w)))"

fun printed :: "event list \<Rightarrow> string list" where
  "printed [] = []"
| "printed (Print_call s # es) = s # printed es"
| "printed (e # es) = printed es"

text \<open>The paths a list of calls opens for writing or writes to.\<close>

fun write_targets :: "event list \<Rightarrow> path list" where
  "write_targets [] = []"
| "write_targets (Open_call p Writing # es) = p # write_targets es"
| "write_targets (Write_call p s # es) = p # write_targets es"
| "write_targets (e # es) = write_targets es"

text \<open>The text \<^verbatim>\<open>f.read()\<close> returns for the source file, if it can be opened.\<close>

definition source_text :: "world \<Rightarrow> string option" where
  "source_text w =
     (case files w source_path of
        None \<Rightarrow> None
      | Some f \<Rightarrow> if readable f then Some (file_text f) else None)"

text \<open>Worlds for concrete runs: a fresh, unrestricted file, and a world holding only the source.\<close>

definition plain_file :: "string \<Rightarrow> text_file" where
  "plain_file s = \<lparr>file_text = s, readable = True, writable = True\<rparr>"

definition only_source :: "string \<Rightarrow> world" where
  "only_source s = \<lparr>files = [source_path \<mapsto> plain_file s], trace = []\<rparr>"

text \<open>
  Three more worlds: no file at all, a source that exists but may not be read, and a
  source next to a black destination that may not be written.
\<close>

definition no_files :: world where
  "no_files = \<lparr>files = Map.empty, trace = []\<rparr>"

definition locked_source :: world where
  "locked_source =
     \<lparr>files = [source_path \<mapsto> \<lparr>file_text = ''<svg/>'', readable = False, writable = True\<rparr>],
      trace = []\<rparr>"

definition locked_black :: "string \<Rightarrow> world" where
  "locked_black s =
     \<lparr>files = [source_path \<mapsto> plain_file s,
               b_dest_path \<mapsto> \<lparr>file_text = ''old'', readable = True, writable = False\<rparr>],
      trace = []\<rparr>"

subsection \<open>Occurrences of a literal\<close>

text \<open>
  The number of positions of a text at which a literal starts, and the replacement of the
  occurrences of a literal as the specification words it: the text is left alone when the
  literal does not occur; otherwise the leftmost occurrence is replaced and the text behind
  it is treated in the same way.
\<close>

fun occurrences :: "'a list \<Rightarrow> 'a list \<Rightarrow> nat" where
  "occurrences t [] = (if t = [] then 1 else 0)"
| "occurrences t (c # cs) = (if prefix t (c # cs) then 1 else 0) + occurrences t cs"

inductive literal_replaced :: "'a list \<Rightarrow> 'a list \<Rightarrow> 'a list \<Rightarrow> 'a list \<Rightarrow> bool"
  for t r where
  no_occurrence: "\<not> sublist t s \<Longrightarrow> literal_replaced t r s s"
| leftmost_occurrence:
    "s = p @ t @ rest \<Longrightarrow> \<forall>p' rest'. s = p' @ t @ rest' \<longrightarrow> length p \<le> length p' \<Longrightarrow>
     literal_replaced t r rest out \<Longrightarrow> literal_replaced t r s (p @ r @ out)"

text \<open>
  Two literals are apart when no non-empty end of the first is a beginning of the second or
  has the second as a beginning; a literal is border-free when it is not empty and its
  proper ends are apart from it.
\<close>

fun apart :: "'a list \<Rightarrow> 'a list \<Rightarrow> bool" where
  "apart [] b = True"
| "apart (c # cs) b = (\<not> prefix (c # cs) b \<and> \<not> prefix b (c # cs) \<and> apart cs b)"

definition border_free :: "'a list \<Rightarrow> bool" where
  "border_free t = (t \<noteq> [] \<and> apart (tl t) t)"

section \<open>Literal replacement\<close>

subsection \<open>Scanning\<close>

lemma occurrences_zero_iff: "occurrences t s = 0 \<longleftrightarrow> \<not> sublist t s"
  by (induction s) (auto simp: sublist_Cons_right)

lemma apart_suffix:
  "apart a b \<Longrightarrow> suffix s a \<Longrightarrow> s \<noteq> [] \<Longrightarrow> \<not> prefix s b \<and> \<not> prefix b s"
  by (induction a) (auto simp: suffix_Cons)

lemma apart_append:
  assumes "apart a b" "suffix s a" "s \<noteq> []"
  shows "\<not> prefix b (s @ x)" "\<not> prefix s (b @ y)"
proof -
  from apart_suffix[OF assms] have n: "\<not> prefix s b" "\<not> prefix b s" by simp_all
  show "\<not> prefix b (s @ x)"
    using n by (auto simp: prefix_append)
  show "\<not> prefix s (b @ y)"
    using n by (auto simp: prefix_append)
qed

lemma scan_replace_skip:
  "(\<And>s. suffix s a \<Longrightarrow> s \<noteq> [] \<Longrightarrow> \<not> prefix old (s @ y)) \<Longrightarrow>
   scan_replace old new (a @ y) = a @ scan_replace old new y"
proof (induction a)
  case Nil
  show ?case by simp
next
  case (Cons c a)
  have "\<not> prefix old ((c # a) @ y)"
    by (rule Cons.prems) simp_all
  moreover have "scan_replace old new (a @ y) = a @ scan_replace old new y"
    by (rule Cons.IH) (simp add: Cons.prems suffix_ConsI)
  ultimately show ?case by simp
qed

lemma scan_replace_match:
  "old \<noteq> [] \<Longrightarrow> scan_replace old new (old @ y) = new @ scan_replace old new y"
  by (cases old) simp_all

lemma scan_replace_absent:
  assumes "\<not> sublist old s"
  shows "scan_replace old new s = s"
proof -
  have "scan_replace old new (s @ []) = s @ scan_replace old new []"
  proof (rule scan_replace_skip)
    fix u assume "suffix u s" "u \<noteq> []"
    show "\<not> prefix old (u @ [])"
      using assms \<open>suffix u s\<close> by (auto simp: sublist_altdef')
  qed
  then show ?thesis by simp
qed


lemma prefix_scan_replace_target:
  "apart (tl old) new \<Longrightarrow> suffix t (tl old) \<Longrightarrow> prefix t (scan_replace old new s) \<Longrightarrow> prefix t s"
proof (induction old new s arbitrary: t rule: scan_replace.induct)
  case (1 old new)
  then show ?case by simp
next
  case (2 old new c cs)
  show ?case
  proof (cases t)
    case Nil
    then show ?thesis by simp
  next
    case (Cons d t')
    show ?thesis
    proof (cases "old \<noteq> [] \<and> prefix old (c # cs)")
      case True
      then have "prefix t (new @ scan_replace old new (drop (length old) (c # cs)))"
        using "2.prems"(3) by simp
      moreover have "\<not> prefix t (new @ scan_replace old new (drop (length old) (c # cs)))"
        using apart_append(2)[OF "2.prems"(1,2)] Cons by simp
      ultimately show ?thesis by simp
    next
      case False
      then have p: "prefix t (c # scan_replace old new cs)"
        using "2.prems"(3) by auto
      have "suffix t' (tl old)"
        using "2.prems"(2) Cons by (auto dest: suffix_ConsD)
      with p Cons False "2.IH"(2)[of t'] "2.prems"(1) show ?thesis
        by auto
    qed
  qed
qed

lemma apart_sublist:
  "apart a t \<Longrightarrow> \<not> sublist t x \<Longrightarrow> \<not> sublist t (a @ x)"
proof (induction a)
  case Nil
  then show ?case by simp
next
  case (Cons c a)
  have "\<not> prefix t ((c # a) @ x)"
    by (rule apart_append(1)[OF Cons.prems(1)]) simp_all
  moreover have "\<not> sublist t (a @ x)"
    using Cons by simp
  ultimately show ?case
    by (simp add: sublist_Cons_right)
qed

lemma scan_replace_target_gone:
  "old \<noteq> [] \<Longrightarrow> apart new old \<Longrightarrow> apart (tl old) new \<Longrightarrow>
   \<not> sublist old (scan_replace old new s)"
proof (induction old new s rule: scan_replace.induct)
  case (1 old new)
  then show ?case by simp
next
  case (2 old new c cs)
  show ?case
  proof (cases "prefix old (c # cs)")
    case True
    have "\<not> sublist old (scan_replace old new (drop (length old) (c # cs)))"
      using "2.IH"(1) True "2.prems" by simp
    then have "\<not> sublist old (new @ scan_replace old new (drop (length old) (c # cs)))"
      by (rule apart_sublist[OF "2.prems"(2)])
    then show ?thesis using True "2.prems"(1) by simp
  next
    case False
    have ih: "\<not> sublist old (scan_replace old new cs)"
      using "2.IH"(2) False "2.prems" by simp
    have "\<not> prefix old (c # scan_replace old new cs)"
    proof
      assume p: "prefix old (c # scan_replace old new cs)"
      then obtain o' where o: "old = c # o'"
        using "2.prems"(1) by (cases old) auto
      with p have "prefix (tl old) (scan_replace old new cs)" by simp
      then have "prefix (tl old) cs"
        by (rule prefix_scan_replace_target[OF "2.prems"(3) suffix_order.refl])
      with o have "prefix old (c # cs)" by simp
      with False show False by simp
    qed
    with ih False show ?thesis
      by (simp add: sublist_Cons_right)
  qed
qed

lemma prefix_scan_replace_new:
  "apart new old \<Longrightarrow> apart (tl new) new \<Longrightarrow> suffix r (tl new) \<Longrightarrow>
   prefix r (scan_replace old new s) \<longleftrightarrow> prefix r s"
proof (induction old new s arbitrary: r rule: scan_replace.induct)
  case (1 old new)
  then show ?case by simp
next
  case (2 old new c cs)
  show ?case
  proof (cases r)
    case Nil
    then show ?thesis by simp
  next
    case (Cons d r')
    show ?thesis
    proof (cases "old \<noteq> [] \<and> prefix old (c # cs)")
      case True
      then obtain y where y: "c # cs = old @ y"
        by (auto elim: prefixE)
      have "suffix r new"
        using "2.prems"(3) by (metis suffix_order.trans suffix_tl)
      then have "\<not> prefix r (old @ y)"
        using apart_append(2)[OF "2.prems"(1)] Cons by simp
      moreover have "\<not> prefix r (new @ scan_replace old new (drop (length old) (c # cs)))"
        using apart_append(2)[OF "2.prems"(2,3)] Cons by simp
      ultimately show ?thesis using True y
        by (simp add: scan_replace_match del: scan_replace.simps)
    next
      case False
      have "suffix r' (tl new)"
        using "2.prems"(3) Cons by (auto dest: suffix_ConsD)
      with Cons False "2.IH"(2)[of r'] "2.prems"(1,2) show ?thesis
        by auto
    qed
  qed
qed

lemma occurrences_skip:
  "apart a p \<Longrightarrow> occurrences p (a @ x) = occurrences p x"
proof (induction a)
  case Nil
  show ?case by simp
next
  case (Cons c a)
  have "\<not> prefix p ((c # a) @ x)"
    by (rule apart_append(1)[OF Cons.prems]) simp_all
  with Cons show ?case by simp
qed

lemma occurrences_self:
  assumes "border_free p"
  shows "occurrences p (p @ x) = Suc (occurrences p x)"
proof -
  from assms obtain c p' where p: "p = c # p'" and a: "apart p' p"
    by (cases p) (auto simp: border_free_def)
  have "occurrences p (p' @ x) = occurrences p x"
    by (rule occurrences_skip[OF a])
  then have "occurrences p (c # p' @ x) = Suc (occurrences p x)"
    using p by simp
  then show ?thesis using p by simp
qed

lemma occurrences_scan_replace:
  "border_free old \<Longrightarrow> border_free new \<Longrightarrow> apart old new \<Longrightarrow> apart new old \<Longrightarrow>
   occurrences new (scan_replace old new s) = occurrences old s + occurrences new s"
proof (induction old new s rule: scan_replace.induct)
  case (1 old new)
  then show ?case by (simp add: border_free_def)
next
  case (2 old new c cs)
  have ne: "old \<noteq> []" "new \<noteq> []" and self: "apart (tl new) new"
    using "2.prems" by (simp_all add: border_free_def)
  show ?case
  proof (cases "prefix old (c # cs)")
    case True
    then obtain y where y: "c # cs = old @ y"
      by (auto elim: prefixE)
    then have d: "drop (length old) (c # cs) = y" by simp
    have "occurrences new (scan_replace old new y) = occurrences old y + occurrences new y"
      using "2.IH"(1) True ne "2.prems" d by simp
    then have "occurrences new (new @ scan_replace old new y)
        = occurrences old (old @ y) + occurrences new (old @ y)"
      by (simp add: occurrences_self "2.prems" occurrences_skip)
    moreover have "scan_replace old new (c # cs) = new @ scan_replace old new y"
      using True ne d by simp
    ultimately show ?thesis using y by simp
  next
    case False
    have ih: "occurrences new (scan_replace old new cs) = occurrences old cs + occurrences new cs"
      using "2.IH"(2) False "2.prems" by simp
    obtain n0 where n: "new = n0 # tl new"
      using ne by (cases new) auto
    have "prefix (tl new) (scan_replace old new cs) \<longleftrightarrow> prefix (tl new) cs"
      by (rule prefix_scan_replace_new[OF "2.prems"(4) self suffix_order.refl])
    then have "prefix new (c # scan_replace old new cs) \<longleftrightarrow> prefix new (c # cs)"
      by (subst (1 2) n) simp
    with ih False show ?thesis by simp
  qed
qed

lemma str_replace_absent:
  "\<not> sublist old s \<Longrightarrow> str_replace s old new = s"
  by (cases "old = []") (simp_all add: str_replace_def scan_replace_absent)

subsection \<open>The scan replaces the occurrences from the left\<close>

lemma scan_replace_leftmost:
  assumes t: "t \<noteq> []"
    and least: "\<forall>p' rest'. p @ t @ rest = p' @ t @ rest' \<longrightarrow> length p \<le> length p'"
  shows "scan_replace t r (p @ t @ rest) = p @ r @ scan_replace t r rest"
proof -
  have "scan_replace t r (p @ t @ rest) = p @ scan_replace t r (t @ rest)"
  proof (rule scan_replace_skip)
    fix u assume u: "suffix u p" "u \<noteq> []"
    show "\<not> prefix t (u @ t @ rest)"
    proof
      assume "prefix t (u @ t @ rest)"
      then obtain z where z: "u @ t @ rest = t @ z" by (auto elim: prefixE)
      from u(1) obtain p0 where p0: "p = p0 @ u" by (auto elim: suffixE)
      then have "p @ t @ rest = p0 @ t @ z" using z by simp
      with least have "length p \<le> length p0" by blast
      with p0 u(2) show False by simp
    qed
  qed
  then show ?thesis by (simp add: scan_replace_match[OF t])
qed

lemma literal_replaced_unique:
  assumes "t \<noteq> []" "literal_replaced t r s out"
  shows "out = scan_replace t r s"
  using assms(2)
proof (induction rule: literal_replaced.induct)
  case (no_occurrence s)
  then show ?case by (simp add: scan_replace_absent)
next
  case (leftmost_occurrence s p rest out)
  then show ?case
    using scan_replace_leftmost[OF assms(1), of p rest r] by simp
qed

lemma literal_replaced_scan:
  assumes t: "t \<noteq> []"
  shows "literal_replaced t r s (scan_replace t r s)"
proof (induction s rule: length_induct)
  case (1 s)
  show ?case
  proof (cases "sublist t s")
    case False
    then show ?thesis
      by (simp add: scan_replace_absent literal_replaced.no_occurrence)
  next
    case True
    define P where "P n \<longleftrightarrow> (\<exists>p rest. s = p @ t @ rest \<and> length p = n)" for n
    from True have "\<exists>n. P n" by (auto simp: sublist_def P_def)
    then have "P (LEAST n. P n)" by (auto intro: LeastI)
    then obtain p rest where s: "s = p @ t @ rest" and lp: "length p = (LEAST n. P n)"
      by (auto simp: P_def)
    have least: "\<forall>p' rest'. s = p' @ t @ rest' \<longrightarrow> length p \<le> length p'"
    proof (intro allI impI)
      fix p' rest' assume "s = p' @ t @ rest'"
      then have "P (length p')" by (auto simp: P_def)
      then show "length p \<le> length p'" unfolding lp by (rule Least_le)
    qed
    have "length rest < length s" using s t by simp
    with 1 have ih: "literal_replaced t r rest (scan_replace t r rest)" by blast
    have "scan_replace t r s = p @ r @ scan_replace t r rest"
      using scan_replace_leftmost[OF t, of p rest r] least s by simp
    moreover have "literal_replaced t r s (p @ r @ scan_replace t r rest)"
      by (rule literal_replaced.leftmost_occurrence[OF s least ih])
    ultimately show ?thesis by simp
  qed
qed

lemma literal_replaced_iff:
  "t \<noteq> [] \<Longrightarrow> literal_replaced t r s out \<longleftrightarrow> out = str_replace s t r"
  using literal_replaced_unique[of t r s out] literal_replaced_scan[of t r s]
  by (auto simp: str_replace_def)

subsection \<open>The three literals of the script\<close>

lemma literals_nonempty:
  "target_literal \<noteq> []" "white_literal \<noteq> []" "black_literal \<noteq> []"
  by (simp_all add: target_literal_def white_literal_def black_literal_def)

lemma target_border_free: "border_free target_literal"
  by (simp add: border_free_def target_literal_def)

lemma white_border_free: "border_free white_literal"
  by (simp add: border_free_def white_literal_def)

lemma black_border_free: "border_free black_literal"
  by (simp add: border_free_def black_literal_def)

lemma target_apart: "apart target_literal white_literal" "apart target_literal black_literal"
  by (simp_all add: target_literal_def white_literal_def black_literal_def)

lemma white_apart: "apart white_literal target_literal"
  by (simp add: target_literal_def white_literal_def)

lemma black_apart: "apart black_literal target_literal"
  by (simp add: target_literal_def black_literal_def)

section \<open>Runs of the script\<close>

lemma backslash_free [simp]: "backslash \<noteq> CHR ''w''" "backslash \<noteq> CHR ''b''"
  by (simp_all add: backslash_def)

lemma paths_distinct [simp]:
  "source_path \<noteq> w_dest_path" "source_path \<noteq> b_dest_path" "w_dest_path \<noteq> b_dest_path"
  "w_dest_path \<noteq> source_path" "b_dest_path \<noteq> source_path" "b_dest_path \<noteq> w_dest_path"
  by (simp_all add: source_path_def w_dest_path_def b_dest_path_def chess_dir_def)

subsection \<open>The five ways a run can go\<close>

lemma run_missing:
  assumes "files w source_path = None"
  shows "process_wizard w =
    (Inr (), w\<lparr>trace := trace w @ [Open_call source_path Reading,
       Print_call (''Error: '' @ source_path @ '' not found.'')]\<rparr>)"
  using assms
  by (simp add: process_wizard_def read_text_def log_event_def print_line_def)

lemma run_unreadable:
  assumes "files w source_path = Some f" "\<not> readable f"
  shows "process_wizard w =
    (Inl PermissionError, w\<lparr>trace := trace w @ [Open_call source_path Reading]\<rparr>)"
  using assms
  by (simp add: process_wizard_def read_text_def log_event_def)

lemma run_white_refused:
  assumes "source_text w = Some s" "\<not> may_write w w_dest_path"
  shows "process_wizard w =
    (Inl PermissionError,
     w\<lparr>trace := trace w @ [Open_call source_path Reading, Open_call w_dest_path Writing]\<rparr>)"
  using assms
  by (auto simp: process_wizard_def read_text_def write_text_def log_event_def source_text_def
      may_write_def Let_def split: option.splits if_splits)

lemma run_black_refused:
  assumes "source_text w = Some s" "may_write w w_dest_path" "\<not> may_write w b_dest_path"
  shows "process_wizard w =
    (Inl PermissionError,
     w\<lparr>files := (files w)
          (w_dest_path \<mapsto> stored (files w w_dest_path) (str_replace s target_literal white_literal)),
       trace := trace w @
         [Open_call source_path Reading,
          Open_call w_dest_path Writing,
          Write_call w_dest_path (str_replace s target_literal white_literal),
          Print_call (''Created '' @ w_dest_path),
          Open_call b_dest_path Writing]\<rparr>)"
  using assms
  by (auto simp: process_wizard_def read_text_def write_text_def log_event_def source_text_def
      print_line_def may_write_def Let_def split: option.splits if_splits)

lemma run_success:
  assumes "source_text w = Some s" "may_write w w_dest_path" "may_write w b_dest_path"
  shows "process_wizard w =
    (Inr (),
     w\<lparr>files := (files w)
          (w_dest_path \<mapsto> stored (files w w_dest_path) (str_replace s target_literal white_literal),
           b_dest_path \<mapsto> stored (files w b_dest_path) (str_replace s target_literal black_literal)),
       trace := trace w @
         [Open_call source_path Reading,
          Open_call w_dest_path Writing,
          Write_call w_dest_path (str_replace s target_literal white_literal),
          Print_call (''Created '' @ w_dest_path),
          Open_call b_dest_path Writing,
          Write_call b_dest_path (str_replace s target_literal black_literal),
          Print_call (''Created '' @ b_dest_path)]\<rparr>)"
  using assms
  by (auto simp: process_wizard_def read_text_def write_text_def log_event_def source_text_def
      print_line_def may_write_def Let_def split: option.splits if_splits)

lemma run_cases:
  obtains (missing) "files w source_path = None"
  | (unreadable) f where "files w source_path = Some f" "\<not> readable f"
  | (white_refused) s where "source_text w = Some s" "\<not> may_write w w_dest_path"
  | (black_refused) s where "source_text w = Some s" "may_write w w_dest_path"
      "\<not> may_write w b_dest_path"
  | (success) s where "source_text w = Some s" "may_write w w_dest_path" "may_write w b_dest_path"
proof (cases "files w source_path")
  case None
  then show ?thesis by (rule missing)
next
  case (Some f)
  show ?thesis
  proof (cases "readable f")
    case False
    with Some show ?thesis by (rule unreadable)
  next
    case True
    with Some have s: "source_text w = Some (file_text f)"
      by (simp add: source_text_def)
    show ?thesis
      using s white_refused black_refused success by blast
  qed
qed

lemma stored_twice: "stored (Some (stored before s)) s = stored before s"
  by (simp add: stored_def split: option.splits)

lemma writable_stored: "writable (stored before s) \<longleftrightarrow> (case before of None \<Rightarrow> True | Some f \<Rightarrow> writable f)"
  by (simp add: stored_def split: option.splits)

lemma file_text_stored [simp]: "file_text (stored before s) = s"
  by (simp add: stored_def split: option.splits)

subsection \<open>Successful runs\<close>

lemma only_source_ready:
  "source_text (only_source s) = Some s"
  "may_write (only_source s) w_dest_path"
  "may_write (only_source s) b_dest_path"
  by (simp_all add: source_text_def may_write_def only_source_def plain_file_def)

lemma events_success:
  assumes "source_text w = Some s" "may_write w w_dest_path" "may_write w b_dest_path"
  shows "events w =
         [Open_call source_path Reading,
          Open_call w_dest_path Writing,
          Write_call w_dest_path (str_replace s target_literal white_literal),
          Print_call (''Created '' @ w_dest_path),
          Open_call b_dest_path Writing,
          Write_call b_dest_path (str_replace s target_literal black_literal),
          Print_call (''Created '' @ b_dest_path)]"
  by (simp add: events_def run_success[OF assms])

lemma written_success:
  assumes "source_text w = Some s" "may_write w w_dest_path" "may_write w b_dest_path"
  shows "written_text w w_dest_path = Some (str_replace s target_literal white_literal)"
    and "written_text w b_dest_path = Some (str_replace s target_literal black_literal)"
    and "outcome w = Inr ()"
  by (simp_all add: written_text_def files_after_def outcome_def run_success[OF assms])

lemma same_source_same_outputs:
  assumes "source_text w = Some s" "may_write w w_dest_path" "may_write w b_dest_path"
    and "source_text w' = Some s" "may_write w' w_dest_path" "may_write w' b_dest_path"
  shows "written_text w' w_dest_path = written_text w w_dest_path"
    and "written_text w' b_dest_path = written_text w b_dest_path"
  by (simp_all add: written_success[OF assms(1-3)] written_success[OF assms(4-6)])

text \<open>
  Replacing can create the target in general: in \<open>xyy\<close> with target \<open>xy\<close> and
  replacement \<open>ax\<close> the result \<open>axy\<close> contains the target again, although the
  replacement does not contain it. What is proved about occurrences below is therefore
  proved for the literals of the script.
\<close>

lemma replace_may_create_target:
  "\<not> sublist ''xy'' ''ax'' \<and> str_replace ''xyy'' ''xy'' ''ax'' = ''axy''
   \<and> occurrences ''xy'' ''axy'' = 1"
  by (simp add: str_replace_def sublist_Cons_right)

section \<open>The claims\<close>

text \<open>
  In the theorems below a run is \<^emph>\<open>able to succeed\<close> when the source can be read
  (\<open>source_text w = Some s\<close>) and neither destination is a file that may not be written.
\<close>

text \<open>
  Claim C1. For every source text \<open>s\<close>, the run writes to the white destination the text
  \<open>s\<close> with the occurrences of the target literal replaced from the left, without
  overlap, by the white literal, and to the black destination the original \<open>s\<close> (not the
  white output) with the same occurrences replaced by the black literal. The written texts
  are the only texts that the specification's wording of the replacement allows, and they
  are what \<^verbatim>\<open>str.replace\<close> returns.
\<close>

theorem variants_are_literal_replacements:
  assumes "source_text w = Some s" "may_write w w_dest_path" "may_write w b_dest_path"
  shows "\<exists>a b. written_text w w_dest_path = Some a \<and> written_text w b_dest_path = Some b
           \<and> (\<forall>out. literal_replaced target_literal white_literal s out \<longleftrightarrow> out = a)
           \<and> (\<forall>out. literal_replaced target_literal black_literal s out \<longleftrightarrow> out = b)
           \<and> a = str_replace s target_literal white_literal
           \<and> b = str_replace s target_literal black_literal"
  by (simp add: written_success[OF assms] literal_replaced_iff literals_nonempty)

theorem variants_are_literal_replacements_witness:
  \<open>source_text (only_source ''<g fill="#000000" stroke="none"><path fill="#000000" stroke="none"/></g>'')
     = Some ''<g fill="#000000" stroke="none"><path fill="#000000" stroke="none"/></g>''
   \<and> may_write (only_source ''<g fill="#000000" stroke="none"><path fill="#000000" stroke="none"/></g>'') w_dest_path
   \<and> may_write (only_source ''<g fill="#000000" stroke="none"><path fill="#000000" stroke="none"/></g>'') b_dest_path
   \<and> (\<exists>a b.
        written_text (only_source ''<g fill="#000000" stroke="none"><path fill="#000000" stroke="none"/></g>'') w_dest_path = Some a
      \<and> written_text (only_source ''<g fill="#000000" stroke="none"><path fill="#000000" stroke="none"/></g>'') b_dest_path = Some b
      \<and> literal_replaced target_literal white_literal
           ''<g fill="#000000" stroke="none"><path fill="#000000" stroke="none"/></g>'' a
      \<and> literal_replaced target_literal black_literal
           ''<g fill="#000000" stroke="none"><path fill="#000000" stroke="none"/></g>'' b
      \<and> a = ''<g fill="#ffffff" stroke="#000000" stroke-width="10"><path fill="#ffffff" stroke="#000000" stroke-width="10"/></g>''
      \<and> b = ''<g fill="#000000" stroke="#ffffff" stroke-width="10"><path fill="#000000" stroke="#ffffff" stroke-width="10"/></g>'')\<close>
  (is "?h1 \<and> ?h2 \<and> ?h3 \<and> ?c")
proof -
  let ?s = \<open>''<g fill="#000000" stroke="none"><path fill="#000000" stroke="none"/></g>''\<close>
  have h: ?h1 ?h2 ?h3 by (fact only_source_ready)+
  have w: \<open>str_replace ?s target_literal white_literal
      = ''<g fill="#ffffff" stroke="#000000" stroke-width="10"><path fill="#ffffff" stroke="#000000" stroke-width="10"/></g>''\<close>
    by (simp add: str_replace_def target_literal_def white_literal_def)
  have b: \<open>str_replace ?s target_literal black_literal
      = ''<g fill="#000000" stroke="#ffffff" stroke-width="10"><path fill="#000000" stroke="#ffffff" stroke-width="10"/></g>''\<close>
    by (simp add: str_replace_def target_literal_def black_literal_def)
  from variants_are_literal_replacements[OF h] have ?c
    unfolding w b by (elim exE conjE, intro exI conjI) simp_all
  with h show ?thesis by (intro conjI)
qed

text \<open>
  Claim C2. If the source path does not exist, the run stops before it produces any output
  file: no file is created or changed and no path is opened for writing; the one line it
  prints names the missing path.
\<close>

theorem missing_source_aborts:
  assumes "files w source_path = None"
  shows "outcome w = Inr ()
       \<and> files_after w = files w
       \<and> write_targets (events w) = []
       \<and> printed (events w) = [''Error: '' @ source_path @ '' not found.'']
       \<and> sublist source_path (''Error: '' @ source_path @ '' not found.'')"
proof -
  have "sublist source_path (''Error: '' @ source_path @ '' not found.'')"
    by (rule sublist_appendI)
  then show ?thesis
    by (simp add: outcome_def files_after_def events_def run_missing[OF assms])
qed

theorem missing_source_aborts_witness:
  "files no_files source_path = None
   \<and> outcome no_files = Inr ()
   \<and> files_after no_files = files no_files
   \<and> write_targets (events no_files) = []
   \<and> printed (events no_files) = [''Error: '' @ source_path @ '' not found.'']"
proof -
  have h: "files no_files source_path = None" by (simp add: no_files_def)
  from missing_source_aborts[OF h] h show ?thesis by simp
qed

text \<open>
  Claim C3, as amended. For every source text \<open>s\<close> and each of the two variants of the
  script, the written text contains no occurrence of the target literal, and the number
  of occurrences of the replacement literal in it is the number of occurrences of the
  target in \<open>s\<close> plus the number of occurrences of the replacement that \<open>s\<close> already
  had.
\<close>

theorem target_gone_replacements_counted:
  assumes "source_text w = Some s" "may_write w w_dest_path" "may_write w b_dest_path"
  shows "\<exists>a b. written_text w w_dest_path = Some a \<and> written_text w b_dest_path = Some b
           \<and> occurrences target_literal a = 0
           \<and> occurrences target_literal b = 0
           \<and> occurrences white_literal a = occurrences target_literal s + occurrences white_literal s
           \<and> occurrences black_literal b = occurrences target_literal s + occurrences black_literal s"
proof -
  let ?a = "scan_replace target_literal white_literal s"
  let ?b = "scan_replace target_literal black_literal s"
  have tl: "apart (tl target_literal) white_literal" "apart (tl target_literal) black_literal"
    by (simp_all add: target_literal_def white_literal_def black_literal_def)
  have "\<not> sublist target_literal ?a"
    by (rule scan_replace_target_gone[OF literals_nonempty(1) white_apart tl(1)])
  moreover have "\<not> sublist target_literal ?b"
    by (rule scan_replace_target_gone[OF literals_nonempty(1) black_apart tl(2)])
  moreover have "occurrences white_literal ?a
      = occurrences target_literal s + occurrences white_literal s"
    by (rule occurrences_scan_replace[OF target_border_free white_border_free
          target_apart(1) white_apart])
  moreover have "occurrences black_literal ?b
      = occurrences target_literal s + occurrences black_literal s"
    by (rule occurrences_scan_replace[OF target_border_free black_border_free
          target_apart(2) black_apart])
  ultimately show ?thesis
    by (simp add: written_success[OF assms] str_replace_def literals_nonempty
        occurrences_zero_iff)
qed

theorem target_gone_replacements_counted_witness:
  \<open>source_text (only_source ''<a fill="#000000" stroke="none"/><b fill="#ffffff" stroke="#000000" stroke-width="10"/>'')
     = Some ''<a fill="#000000" stroke="none"/><b fill="#ffffff" stroke="#000000" stroke-width="10"/>''
   \<and> may_write (only_source ''<a fill="#000000" stroke="none"/><b fill="#ffffff" stroke="#000000" stroke-width="10"/>'') w_dest_path
   \<and> may_write (only_source ''<a fill="#000000" stroke="none"/><b fill="#ffffff" stroke="#000000" stroke-width="10"/>'') b_dest_path
   \<and> (\<exists>a b.
        written_text (only_source ''<a fill="#000000" stroke="none"/><b fill="#ffffff" stroke="#000000" stroke-width="10"/>'') w_dest_path = Some a
      \<and> written_text (only_source ''<a fill="#000000" stroke="none"/><b fill="#ffffff" stroke="#000000" stroke-width="10"/>'') b_dest_path = Some b
      \<and> occurrences target_literal a = 0
      \<and> occurrences target_literal b = 0
      \<and> occurrences white_literal a = 2
      \<and> occurrences black_literal b = 1)\<close>
  (is "?h1 \<and> ?h2 \<and> ?h3 \<and> ?c")
proof -
  let ?s = \<open>''<a fill="#000000" stroke="none"/><b fill="#ffffff" stroke="#000000" stroke-width="10"/>''\<close>
  have h: ?h1 ?h2 ?h3 by (fact only_source_ready)+
  have t: "occurrences target_literal ?s = 1"
    by (simp add: target_literal_def)
  have w: "occurrences white_literal ?s = 1"
    by (simp add: white_literal_def)
  have b: "occurrences black_literal ?s = 0"
    by (simp add: black_literal_def)
  from target_gone_replacements_counted[OF h] have ?c
    unfolding t w b by (elim exE conjE, intro exI conjI) (simp_all add: numeral_2_eq_2)
  with h show ?thesis by (intro conjI)
qed

text \<open>
  Claim C3 as it was stated fails on the white variant when the source text is the white
  literal itself: the white literal does not contain the target, the target occurs in the
  source no times, nothing is replaced, and the written text has one occurrence of the
  white literal.
\<close>

theorem replacement_count_counterexample:
  "\<not> sublist target_literal white_literal
   \<and> source_text (only_source white_literal) = Some white_literal
   \<and> written_text (only_source white_literal) w_dest_path = Some white_literal
   \<and> occurrences white_literal white_literal = 1
   \<and> occurrences target_literal white_literal = 0"
proof -
  have "\<not> sublist target_literal (white_literal @ [])"
    by (rule apart_sublist[OF white_apart]) (simp add: literals_nonempty)
  then have n: "\<not> sublist target_literal white_literal"
    by simp
  then have "str_replace white_literal target_literal white_literal = white_literal"
    by (rule str_replace_absent)
  moreover have "occurrences white_literal (white_literal @ []) = Suc (occurrences white_literal [])"
    by (rule occurrences_self[OF white_border_free])
  ultimately show ?thesis
    using n by (simp add: written_success[OF only_source_ready] only_source_ready
        occurrences_zero_iff literals_nonempty)
qed

text \<open>
  Claim C4. For the source text \<^verbatim>\<open>fill="#000000" stroke="none" d="M0 0"\<close> the white output
  is \<^verbatim>\<open>fill="#ffffff" stroke="#000000" stroke-width="10" d="M0 0"\<close> and the black output is
  \<^verbatim>\<open>fill="#000000" stroke="#ffffff" stroke-width="10" d="M0 0"\<close>.
\<close>

theorem mage_scenario:
  \<open>written_text (only_source ''fill="#000000" stroke="none" d="M0 0"'') w_dest_path
     = Some ''fill="#ffffff" stroke="#000000" stroke-width="10" d="M0 0"''
   \<and> written_text (only_source ''fill="#000000" stroke="none" d="M0 0"'') b_dest_path
     = Some ''fill="#000000" stroke="#ffffff" stroke-width="10" d="M0 0"''\<close>
  by (simp add: written_success[OF only_source_ready] str_replace_def
      target_literal_def white_literal_def black_literal_def)

text \<open>
  Claim C5. For every source text \<open>s\<close> in which the target literal occurs no times, a run
  that is able to succeed still writes both destination files, each with the text \<open>s\<close>,
  and returns without an exception.
\<close>

theorem no_occurrence_copies_source:
  assumes "source_text w = Some s" "occurrences target_literal s = 0"
    and "may_write w w_dest_path" "may_write w b_dest_path"
  shows "outcome w = Inr ()
       \<and> written_text w w_dest_path = Some s \<and> written_text w b_dest_path = Some s
       \<and> Write_call w_dest_path s \<in> set (events w)
       \<and> Write_call b_dest_path s \<in> set (events w)"
proof -
  have "\<not> sublist target_literal s"
    using assms(2) by (simp add: occurrences_zero_iff)
  then have "str_replace s target_literal r = s" for r
    by (rule str_replace_absent)
  then show ?thesis
    by (simp add: written_success[OF assms(1,3,4)] events_success[OF assms(1,3,4)])
qed

theorem no_occurrence_copies_source_witness:
  \<open>source_text (only_source ''<svg fill="none"/>'') = Some ''<svg fill="none"/>''
   \<and> occurrences target_literal ''<svg fill="none"/>'' = 0
   \<and> may_write (only_source ''<svg fill="none"/>'') w_dest_path
   \<and> may_write (only_source ''<svg fill="none"/>'') b_dest_path
   \<and> outcome (only_source ''<svg fill="none"/>'') = Inr ()
   \<and> written_text (only_source ''<svg fill="none"/>'') w_dest_path = Some ''<svg fill="none"/>''
   \<and> written_text (only_source ''<svg fill="none"/>'') b_dest_path = Some ''<svg fill="none"/>''\<close>
proof -
  let ?s = \<open>''<svg fill="none"/>''\<close>
  have h: "source_text (only_source ?s) = Some ?s"
    "may_write (only_source ?s) w_dest_path" "may_write (only_source ?s) b_dest_path"
    by (fact only_source_ready)+
  have z: "occurrences target_literal ?s = 0"
    by (simp add: target_literal_def)
  from no_occurrence_copies_source[OF h(1) z h(2,3)] h z show ?thesis
    by (intro conjI) simp_all
qed

text \<open>
  Claim C6. A second run, started in the world the first run left behind, ends in the same
  way, leaves the same files and makes the same calls as the first: the first run does not
  change the source, and the destination files are the same after both runs.
\<close>

theorem rerun_stable:
  "source_text (snd (process_wizard w)) = source_text w
   \<and> outcome (snd (process_wizard w)) = outcome w
   \<and> files_after (snd (process_wizard w)) = files_after w
   \<and> events (snd (process_wizard w)) = events w"
proof (cases w rule: run_cases)
  case missing
  let ?w' = "snd (process_wizard w)"
  have "files ?w' source_path = None" using missing by (simp add: run_missing)
  then show ?thesis
    using missing
    by (simp add: outcome_def files_after_def events_def run_missing source_text_def)
next
  case (unreadable f)
  let ?w' = "snd (process_wizard w)"
  have "files ?w' source_path = Some f" using unreadable by (simp add: run_unreadable)
  then show ?thesis
    using unreadable run_unreadable[of ?w' f] run_unreadable[of w f]
    by (simp add: outcome_def files_after_def events_def source_text_def)
next
  case (white_refused s)
  let ?w' = "snd (process_wizard w)"
  have "source_text ?w' = Some s" "\<not> may_write ?w' w_dest_path"
    using white_refused by (simp_all add: run_white_refused source_text_def may_write_def)
  then show ?thesis
    using white_refused run_white_refused[of ?w' s] run_white_refused[of w s]
    by (simp add: outcome_def files_after_def events_def)
next
  case (black_refused s)
  let ?w' = "snd (process_wizard w)"
  have "source_text ?w' = Some s" "may_write ?w' w_dest_path" "\<not> may_write ?w' b_dest_path"
    using black_refused
    by (simp_all add: run_black_refused source_text_def may_write_def writable_stored)
  then show ?thesis
    using black_refused run_black_refused[of ?w' s] run_black_refused[of w s]
    by (simp add: outcome_def files_after_def events_def stored_twice)
next
  case (success s)
  let ?w' = "snd (process_wizard w)"
  have "source_text ?w' = Some s" "may_write ?w' w_dest_path" "may_write ?w' b_dest_path"
    using success
    by (simp_all add: run_success source_text_def may_write_def writable_stored)
  then show ?thesis
    using success run_success[of ?w' s] run_success[of w s]
    by (simp add: outcome_def files_after_def events_def stored_twice fun_upd_twist)
qed

text \<open>
  Claim C7, as amended. Whenever the source cannot be opened for reading, the run ends at
  once and attempts no write. When the source path does not exist, the run prints
  \<^verbatim>\<open>Error: <path> not found.\<close> and returns normally. When the source exists but may not
  be read, nothing is printed and the exception leaves the function.
\<close>

theorem unopenable_source_no_writes:
  assumes "source_text w = None"
  shows "files_after w = files w
       \<and> write_targets (events w) = []
       \<and> (if files w source_path = None
          then outcome w = Inr ()
             \<and> printed (events w) = [''Error: '' @ source_path @ '' not found.'']
          else outcome w = Inl PermissionError \<and> printed (events w) = [])"
proof (cases "files w source_path")
  case None
  then show ?thesis
    by (simp add: outcome_def files_after_def events_def run_missing)
next
  case (Some f)
  with assms have "\<not> readable f"
    by (simp add: source_text_def split: if_splits)
  with Some show ?thesis
    by (simp add: outcome_def files_after_def events_def run_unreadable[of w f])
qed

theorem unopenable_source_no_writes_witness:
  "source_text no_files = None
   \<and> files_after no_files = files no_files
   \<and> write_targets (events no_files) = []
   \<and> outcome no_files = Inr ()
   \<and> printed (events no_files) = [''Error: '' @ source_path @ '' not found.'']"
proof -
  have h: "source_text no_files = None"
    by (simp add: source_text_def no_files_def)
  have n: "files no_files source_path = None"
    by (simp add: no_files_def)
  from unopenable_source_no_writes[OF h] h n show ?thesis by simp
qed

text \<open>
  Claim C7 as it was stated fails when the source exists and may not be read: it cannot
  be opened for reading, yet no message is printed and the run does not return normally.
\<close>

theorem unreadable_source_counterexample:
  "source_text locked_source = None
   \<and> outcome locked_source = Inl PermissionError
   \<and> printed (events locked_source) = []"
proof -
  have "files locked_source source_path
          = Some \<lparr>file_text = ''<svg/>'', readable = False, writable = True\<rparr>"
    by (simp add: locked_source_def)
  then show ?thesis
    by (simp add: source_text_def outcome_def events_def
        run_unreadable[of locked_source "\<lparr>file_text = ''<svg/>'', readable = False, writable = True\<rparr>"])
qed

text \<open>
  Claim C8. On success both destination paths hold their transformed texts, the white
  variant is written before the black variant is, and one confirmation line is printed for
  each file, behind its write. The transformed texts are given by the replacement relation
  of the specification, which determines them.
\<close>

theorem success_order_and_confirmations:
  assumes "source_text w = Some s" "may_write w w_dest_path" "may_write w b_dest_path"
  shows "\<exists>a b. outcome w = Inr ()
       \<and> written_text w w_dest_path = Some a
       \<and> written_text w b_dest_path = Some b
       \<and> (\<forall>out. literal_replaced target_literal white_literal s out \<longleftrightarrow> out = a)
       \<and> (\<forall>out. literal_replaced target_literal black_literal s out \<longleftrightarrow> out = b)
       \<and> events w =
           [Open_call source_path Reading,
            Open_call w_dest_path Writing,
            Write_call w_dest_path a,
            Print_call (''Created '' @ w_dest_path),
            Open_call b_dest_path Writing,
            Write_call b_dest_path b,
            Print_call (''Created '' @ b_dest_path)]
       \<and> printed (events w) = [''Created '' @ w_dest_path, ''Created '' @ b_dest_path]"
  by (simp add: written_success[OF assms] events_success[OF assms]
      literal_replaced_iff literals_nonempty)

theorem success_order_and_confirmations_witness:
  \<open>source_text (only_source ''<g fill="#000000" stroke="none"/>'')
     = Some ''<g fill="#000000" stroke="none"/>''
   \<and> may_write (only_source ''<g fill="#000000" stroke="none"/>'') w_dest_path
   \<and> may_write (only_source ''<g fill="#000000" stroke="none"/>'') b_dest_path
   \<and> outcome (only_source ''<g fill="#000000" stroke="none"/>'') = Inr ()
   \<and> written_text (only_source ''<g fill="#000000" stroke="none"/>'') w_dest_path
       = Some ''<g fill="#ffffff" stroke="#000000" stroke-width="10"/>''
   \<and> written_text (only_source ''<g fill="#000000" stroke="none"/>'') b_dest_path
       = Some ''<g fill="#000000" stroke="#ffffff" stroke-width="10"/>''
   \<and> literal_replaced target_literal white_literal ''<g fill="#000000" stroke="none"/>''
         ''<g fill="#ffffff" stroke="#000000" stroke-width="10"/>''
   \<and> literal_replaced target_literal black_literal ''<g fill="#000000" stroke="none"/>''
         ''<g fill="#000000" stroke="#ffffff" stroke-width="10"/>''
   \<and> events (only_source ''<g fill="#000000" stroke="none"/>'') =
           [Open_call source_path Reading,
            Open_call w_dest_path Writing,
            Write_call w_dest_path ''<g fill="#ffffff" stroke="#000000" stroke-width="10"/>'',
            Print_call (''Created '' @ w_dest_path),
            Open_call b_dest_path Writing,
            Write_call b_dest_path ''<g fill="#000000" stroke="#ffffff" stroke-width="10"/>'',
            Print_call (''Created '' @ b_dest_path)]
   \<and> printed (events (only_source ''<g fill="#000000" stroke="none"/>''))
       = [''Created '' @ w_dest_path, ''Created '' @ b_dest_path]\<close>
proof -
  let ?s = \<open>''<g fill="#000000" stroke="none"/>''\<close>
  let ?a = \<open>''<g fill="#ffffff" stroke="#000000" stroke-width="10"/>''\<close>
  let ?b = \<open>''<g fill="#000000" stroke="#ffffff" stroke-width="10"/>''\<close>
  have h: "source_text (only_source ?s) = Some ?s"
    "may_write (only_source ?s) w_dest_path"
    "may_write (only_source ?s) b_dest_path"
    by (fact only_source_ready)+
  have ra: "str_replace ?s target_literal white_literal = ?a"
    by (simp add: str_replace_def target_literal_def white_literal_def)
  have rb: "str_replace ?s target_literal black_literal = ?b"
    by (simp add: str_replace_def target_literal_def black_literal_def)
  have la: "literal_replaced target_literal white_literal ?s ?a"
    by (rule iffD2[OF literal_replaced_iff[OF literals_nonempty(1)] ra[symmetric]])
  have lb: "literal_replaced target_literal black_literal ?s ?b"
    by (rule iffD2[OF literal_replaced_iff[OF literals_nonempty(1)] rb[symmetric]])
  from success_order_and_confirmations[OF h] obtain a b where
    o: "outcome (only_source ?s) = Inr ()"
    and wa: "written_text (only_source ?s) w_dest_path = Some a"
    and wb: "written_text (only_source ?s) b_dest_path = Some b"
    and ua: "\<forall>out. literal_replaced target_literal white_literal ?s out \<longleftrightarrow> out = a"
    and ub: "\<forall>out. literal_replaced target_literal black_literal ?s out \<longleftrightarrow> out = b"
    and ev: "events (only_source ?s) =
           [Open_call source_path Reading,
            Open_call w_dest_path Writing,
            Write_call w_dest_path a,
            Print_call (''Created '' @ w_dest_path),
            Open_call b_dest_path Writing,
            Write_call b_dest_path b,
            Print_call (''Created '' @ b_dest_path)]"
    and pr: "printed (events (only_source ?s))
       = [''Created '' @ w_dest_path, ''Created '' @ b_dest_path]"
    by (elim exE conjE)
  have a: "?a = a" by (rule iffD1[OF ua[THEN spec] la])
  have b: "?b = b" by (rule iffD1[OF ub[THEN spec] lb])
  show ?thesis
    unfolding a b using h o wa wb ev pr la lb unfolding a b by (intro conjI)
qed

text \<open>
  Claim C9. A run opens for writing, and writes to, the two destination paths only. The
  file at the source path, and every file at a path other than the two destinations, is
  the same after the run as before.
\<close>

theorem only_destinations_written:
  "set (write_targets (events w)) \<subseteq> {w_dest_path, b_dest_path}
   \<and> source_path \<notin> set (write_targets (events w))
   \<and> files_after w source_path = files w source_path
   \<and> (p \<noteq> w_dest_path \<and> p \<noteq> b_dest_path \<longrightarrow> files_after w p = files w p)"
proof (cases w rule: run_cases)
  case missing
  then show ?thesis by (simp add: files_after_def events_def run_missing)
next
  case (unreadable f)
  then show ?thesis by (simp add: files_after_def events_def run_unreadable[of w f])
next
  case (white_refused s)
  then show ?thesis by (simp add: files_after_def events_def run_white_refused[of w s])
next
  case (black_refused s)
  then show ?thesis by (simp add: files_after_def events_def run_black_refused[of w s])
next
  case (success s)
  then show ?thesis by (simp add: files_after_def events_def run_success[of w s])
qed

theorem only_destinations_written_witness:
  "''notes.txt'' \<noteq> w_dest_path \<and> ''notes.txt'' \<noteq> b_dest_path
   \<and> set (write_targets (events (only_source ''<svg/>''))) \<subseteq> {w_dest_path, b_dest_path}
   \<and> source_path \<notin> set (write_targets (events (only_source ''<svg/>'')))
   \<and> files_after (only_source ''<svg/>'') source_path = Some (plain_file ''<svg/>'')
   \<and> files_after (only_source ''<svg/>'') ''notes.txt'' = None"
proof -
  have d: "''notes.txt'' \<noteq> w_dest_path" "''notes.txt'' \<noteq> b_dest_path"
    "''notes.txt'' \<noteq> source_path"
    by (simp_all add: w_dest_path_def b_dest_path_def source_path_def chess_dir_def)
  have f: "files (only_source ''<svg/>'') source_path = Some (plain_file ''<svg/>'')"
    "files (only_source ''<svg/>'') ''notes.txt'' = None"
    using d by (simp_all add: only_source_def)
  from only_destinations_written[of "only_source ''<svg/>''" "''notes.txt''"] d f
  show ?thesis by (intro conjI) simp_all
qed

text \<open>
  Claim C10. The two writes are not atomic. When the white write completes and the black
  destination then refuses to be opened for writing, the exception leaves the function,
  the white destination keeps the text just written to it, the black destination is as it
  was, and the run makes no further call: nothing is rolled back or cleaned up.
\<close>

theorem white_kept_when_black_fails:
  assumes "source_text w = Some s" "may_write w w_dest_path" "\<not> may_write w b_dest_path"
  shows "outcome w = Inl PermissionError
       \<and> written_text w w_dest_path = Some (str_replace s target_literal white_literal)
       \<and> files_after w b_dest_path = files w b_dest_path
       \<and> events w =
           [Open_call source_path Reading,
            Open_call w_dest_path Writing,
            Write_call w_dest_path (str_replace s target_literal white_literal),
            Print_call (''Created '' @ w_dest_path),
            Open_call b_dest_path Writing]"
  by (simp add: outcome_def written_text_def files_after_def events_def
      run_black_refused[OF assms])

theorem white_kept_when_black_fails_witness:
  \<open>source_text (locked_black ''fill="#000000" stroke="none"'') = Some ''fill="#000000" stroke="none"''
   \<and> may_write (locked_black ''fill="#000000" stroke="none"'') w_dest_path
   \<and> \<not> may_write (locked_black ''fill="#000000" stroke="none"'') b_dest_path
   \<and> outcome (locked_black ''fill="#000000" stroke="none"'') = Inl PermissionError
   \<and> written_text (locked_black ''fill="#000000" stroke="none"'') w_dest_path
       = Some ''fill="#ffffff" stroke="#000000" stroke-width="10"''
   \<and> written_text (locked_black ''fill="#000000" stroke="none"'') b_dest_path = Some ''old''\<close>
proof -
  let ?s = \<open>''fill="#000000" stroke="none"''\<close>
  have h: "source_text (locked_black ?s) = Some ?s"
    "may_write (locked_black ?s) w_dest_path"
    "\<not> may_write (locked_black ?s) b_dest_path"
    by (simp_all add: source_text_def may_write_def locked_black_def plain_file_def)
  have r: \<open>str_replace ?s target_literal white_literal
      = ''fill="#ffffff" stroke="#000000" stroke-width="10"''\<close>
    by (simp add: str_replace_def target_literal_def white_literal_def)
  have b: "files (locked_black ?s) b_dest_path
      = Some \<lparr>file_text = ''old'', readable = True, writable = False\<rparr>"
    by (simp add: locked_black_def)
  from white_kept_when_black_fails[OF h] h show ?thesis
    unfolding r by (intro conjI) (simp_all add: written_text_def b)
qed

end
